theory Spec2Isabelle
  imports Main "HOL-Library.Char_ord" "HOL-Library.List_Lexorder"
begin

section \<open>Tokens and Python list indexing\<close>

text \<open>
  Modelled from the spec: \<^verbatim>\<open>tokenizer.py\<close> is not among the sources. The lexical
  categories are those the spec lists (identifier, string and number literals,
  operator, punctuation, whitespace, comment, end of file); the sources name
  \<^verbatim>\<open>TokenType.IDENT\<close>, \<^verbatim>\<open>TokenType.WHITESPACE\<close> and \<^verbatim>\<open>TokenType.OP\<close>.
\<close>

datatype TokenType = IDENT | QUOTED | NUMBER | OP | WHITESPACE | COMMENT | PUNCTUATION | EOF

text \<open>A token: its category, its start and end offsets and the text it belongs to.\<close>

record Token =
  ttype :: TokenType
  tstart :: int
  tend :: int
  tstring :: string

text \<open>
  Modelled from the spec: \<^verbatim>\<open>SKIP_TOKENS\<close> is imported from the parser modules and its
  declaration is not among the sources. The spec designates whitespace and comments as
  the skippable categories.
\<close>

definition SKIP_TOKENS :: "TokenType list" where
  "SKIP_TOKENS = [COMMENT, WHITESPACE]"

datatype py_error = IndexError

text \<open>
  Python's \<^verbatim>\<open>xs[i]\<close>: a negative index counts from the end, and an index outside
  \<^verbatim>\<open>-len(xs) .. len(xs) - 1\<close> raises \<^verbatim>\<open>IndexError\<close>.
\<close>

definition py_index :: "'a list \<Rightarrow> int \<Rightarrow> py_error + 'a" where
  "py_index xs i =
     (if 0 \<le> i \<and> i < int (length xs) then Inr (xs ! nat i)
      else if i < 0 \<and> - int (length xs) \<le> i then Inr (xs ! nat (int (length xs) + i))
      else Inl IndexError)"

section \<open>The completion resolver (completions.py)\<close>

text \<open>
  An AST node as the resolver reads it: the span of its parse group
  (\<^verbatim>\<open>group.start\<close>, \<^verbatim>\<open>group.end\<close>), its \<^verbatim>\<open>incomplete\<close> flag, its registered
  completers (kept abstract, as values of \<open>'c\<close>) and its children in source order.
\<close>

datatype 'c AstNode =
  AstNode (gstart: int) (gend: int) (incomplete: bool) (completers: "'c list")
    (children: "'c AstNode list")

text \<open>The test of the \<^verbatim>\<open>for child in ast_node.children\<close> loop of \<^verbatim>\<open>_complete\<close>.\<close>

definition in_span :: "int \<Rightarrow> 'c AstNode \<Rightarrow> bool" where
  "in_span idx child \<longleftrightarrow>
     gstart child \<le> idx \<and> (idx < gend child \<or> (idx = gend child \<and> incomplete child))"

text \<open>
  The loop \<^verbatim>\<open>while len(prev_tokens) < 5 and token_idx >= 0\<close>: a token whose type is
  not in \<^verbatim>\<open>SKIP_TOKENS\<close> is inserted at the front of \<^verbatim>\<open>prev_tokens\<close>.
\<close>

function collect_prev :: "Token list \<Rightarrow> Token list \<Rightarrow> int \<Rightarrow> py_error + Token list" where
  "collect_prev tokens prev_tokens token_idx =
     (if length prev_tokens < 5 \<and> token_idx \<ge> 0 then
        (case py_index tokens token_idx of
           Inl e \<Rightarrow> Inl e
         | Inr token \<Rightarrow>
             collect_prev tokens
               (if ttype token \<notin> set SKIP_TOKENS then token # prev_tokens else prev_tokens)
               (token_idx - 1))
      else Inr prev_tokens)"
  by pat_completeness auto
termination
  by (relation "measure (\<lambda>(tokens, prev_tokens, token_idx). nat (token_idx + 1))") auto

text \<open>
  One call \<^verbatim>\<open>completer(prev_tokens, ast_node, lsp)\<close> made by the dispatch loop: the
  completer, the window it is handed and the node it is called on.
\<close>

record 'c invocation =
  inv_completer :: 'c
  inv_prev_tokens :: "Token list"
  inv_node :: "'c AstNode"

text \<open>The part of \<^verbatim>\<open>_complete\<close> after the loop over the children.\<close>

definition dispatch :: "'c AstNode \<Rightarrow> Token list \<Rightarrow> int \<Rightarrow> py_error + 'c invocation list" where
  "dispatch ast_node tokens token_idx =
     (case collect_prev tokens [] token_idx of
        Inl e \<Rightarrow> Inl e
      | Inr prev_tokens \<Rightarrow>
          Inr (map (\<lambda>c. \<lparr>inv_completer = c, inv_prev_tokens = prev_tokens, inv_node = ast_node\<rparr>)
                 (completers ast_node)))"

text \<open>
  \<^verbatim>\<open>_complete\<close>, here \<open>complete_node\<close> (a name cannot start with an underscore): the
  first child whose span takes the offset is entered and the function returns with
  that child's result; with no such child the node's own completers are called. The
  result lists the completer calls in order (\<open>complete_children\<close> is the loop over
  the children, \<open>None\<close> when it falls through). The argument \<^verbatim>\<open>lsp\<close> is only handed
  on to the completers and is left out.
\<close>

fun complete_node :: "'c AstNode \<Rightarrow> Token list \<Rightarrow> int \<Rightarrow> int \<Rightarrow> py_error + 'c invocation list"
  and complete_children ::
    "'c AstNode list \<Rightarrow> Token list \<Rightarrow> int \<Rightarrow> int \<Rightarrow> (py_error + 'c invocation list) option"
where
  "complete_node (AstNode s e inc cs chn) tokens idx token_idx =
     (case complete_children chn tokens idx token_idx of
        Some r \<Rightarrow> r
      | None \<Rightarrow> dispatch (AstNode s e inc cs chn) tokens token_idx)"
| "complete_children [] tokens idx token_idx = None"
| "complete_children (child # rest) tokens idx token_idx =
     (if in_span idx child then Some (complete_node child tokens idx token_idx)
      else complete_children rest tokens idx token_idx)"

text \<open>
  The nodes \<^verbatim>\<open>_complete\<close> is called on in one request, outermost first: the same
  recursion as \<open>complete_node\<close>, recording the node of each call. The last one is the
  node whose completers are called.
\<close>

fun descent :: "'c AstNode \<Rightarrow> int \<Rightarrow> 'c AstNode list"
  and descent_children :: "'c AstNode list \<Rightarrow> int \<Rightarrow> 'c AstNode list"
where
  "descent (AstNode s e inc cs chn) idx = AstNode s e inc cs chn # descent_children chn idx"
| "descent_children [] idx = []"
| "descent_children (child # rest) idx =
     (if in_span idx child then descent child idx else descent_children rest idx)"

text \<open>
  \<^verbatim>\<open>complete\<close>, first loop: \<^verbatim>\<open>token_idx\<close> starts at 0 and is overwritten by the
  index of every token with \<^verbatim>\<open>token.start < idx <= token.end\<close>.
\<close>

definition find_current_token :: "Token list \<Rightarrow> int \<Rightarrow> int" where
  "find_current_token tokens idx =
     foldl (\<lambda>token_idx (i, token). if tstart token < idx \<and> idx \<le> tend token then int i else token_idx)
       0 (enumerate 0 tokens)"

text \<open>
  \<^verbatim>\<open>complete\<close>, second loop: while the token at \<^verbatim>\<open>token_idx\<close> is an identifier or
  whitespace, the offset moves to that token's start and \<^verbatim>\<open>token_idx\<close> drops by one.
  The index is read as Python reads it, so \<^verbatim>\<open>-1\<close> is the last token, and the loop
  raises once the index falls below \<^verbatim>\<open>-len(tokens)\<close>.
\<close>

function move_back :: "Token list \<Rightarrow> int \<Rightarrow> int \<Rightarrow> py_error + int \<times> int" where
  "move_back tokens idx token_idx =
     (case py_index tokens token_idx of
        Inl e \<Rightarrow> Inl e
      | Inr token \<Rightarrow>
          if ttype token \<in> set [IDENT, WHITESPACE]
          then move_back tokens (tstart token) (token_idx - 1)
          else Inr (idx, token_idx))"
  by pat_completeness auto
termination
  by (relation "measure (\<lambda>(tokens, idx, token_idx). nat (token_idx + int (length tokens) + 1))")
    (auto simp: py_index_def Let_def split: if_splits)

text \<open>\<^verbatim>\<open>complete\<close>: the two loops, then \<^verbatim>\<open>_complete\<close> at the anchored offset and index.\<close>

definition complete ::
  "'c AstNode \<Rightarrow> Token list \<Rightarrow> int \<Rightarrow> py_error + 'c invocation list" where
  "complete ast_node tokens idx =
     (case move_back tokens idx (find_current_token tokens idx) of
        Inl e \<Rightarrow> Inl e
      | Inr (idx', token_idx) \<Rightarrow> complete_node ast_node tokens idx' token_idx)"

section \<open>Suggestion generators (completions.py)\<close>

text \<open>
  A suggestion, with the fields the generators of \<^verbatim>\<open>completions.py\<close> set by keyword;
  a field left out is \<open>None\<close> (\<open>plain_text\<close> is the keyword \<^verbatim>\<open>text\<close>). The kinds
  are those the module names.
\<close>

datatype CompletionItemKind =
  Keyword | Module | Class | Property | EnumMember | Constant | Event | Snippet

record Completion =
  label :: string
  kind :: CompletionItemKind
  sort_text :: "string option"
  snippet :: "string option"
  plain_text :: "string option"
  docs :: "string option"
  detail :: "string option"

text \<open>
  The type catalog as the two generators read it. \<^verbatim>\<open>gir.py\<close> is not among the
  sources: the type of a property is tested with \<^verbatim>\<open>isinstance\<close> against
  \<^verbatim>\<open>BoolType\<close>, \<^verbatim>\<open>StringType\<close> and \<^verbatim>\<open>Enumeration\<close> (whose \<^verbatim>\<open>members\<close> are kept
  by their keys, in order) and by its \<^verbatim>\<open>full_name\<close>, which is a field here.
  \<open>translated\<close> is the answer of \<^verbatim>\<open>annotations.is_property_translated(prop)\<close>.
  A class that has no \<^verbatim>\<open>properties\<close> or \<^verbatim>\<open>signals\<close> attribute has \<open>None\<close> there.
\<close>

datatype GirKind =
  BoolType | StringType | is_Enumeration: Enumeration (members: "string list") | OtherType

record GirType =
  type_kind :: GirKind
  full_name :: string

record GirProperty =
  ptype :: GirType
  pdoc :: "string option"
  pdetail :: "string option"
  translated :: bool

record GirSignal =
  sdoc :: "string option"
  sdetail :: "string option"

record GirClass =
  properties :: "(string \<times> GirProperty) list option"
  signals :: "(string \<times> GirSignal) list option"

text \<open>
  The object-content node the generators are called on: its resolved class, and its
  parent, of which \<^verbatim>\<open>signal_completer\<close> reads the first \<^verbatim>\<open>ClassName\<close> child's
  \<^verbatim>\<open>tokens["id"]\<close> and \<^verbatim>\<open>tokens["class_name"]\<close> when the parent is an \<^verbatim>\<open>Object\<close>.
\<close>

datatype ParentNode = Object "string option" string | NotObject

record ContentNode =
  gir_class :: "GirClass option"
  parent :: ParentNode

record LanguageServer =
  client_supports_completion_choice :: bool

definition dq :: string where
  "dq = [CHR 0x22]"

definition sq :: string where
  "sq = [CHR 0x27]"

definition backslash :: string where
  "backslash = [CHR 0x5C]"

text \<open>\<^verbatim>\<open>sep.join(xs)\<close>.\<close>

fun join :: "string \<Rightarrow> string list \<Rightarrow> string" where
  "join sep [] = []"
| "join sep [x] = x"
| "join sep (x # y # ys) = x @ sep @ join sep (y # ys)"

text \<open>\<^verbatim>\<open>str.lower\<close> and \<^verbatim>\<open>str.replace('-', '_')\<close>, on ASCII text.\<close>

definition lower :: "string \<Rightarrow> string" where
  "lower s =
     map (\<lambda>c. if 65 \<le> (of_char c :: nat) \<and> (of_char c :: nat) \<le> 90
                then char_of ((of_char c :: nat) + 32) else c) s"

definition replace_dash :: "string \<Rightarrow> string" where
  "replace_dash s = map (\<lambda>c. if c = CHR ''-'' then CHR ''_'' else c) s"

text \<open>The body of the loop of \<^verbatim>\<open>property_completer\<close>: one suggestion per property.\<close>

definition property_completion :: "LanguageServer \<Rightarrow> string \<Rightarrow> GirProperty \<Rightarrow> Completion" where
  "property_completion lsp prop_name prop =
     (let k = type_kind (ptype prop);
          item = (\<lambda>snip. \<lparr>label = prop_name, kind = Property,
                    sort_text = Some (''0 '' @ prop_name), snippet = Some snip, plain_text = None,
                    docs = pdoc prop, detail = pdetail prop\<rparr>)
      in if k = BoolType \<and> client_supports_completion_choice lsp then
           item (prop_name @ '': ${1|true,false|};'')
         else if k = StringType then
           item (if translated prop then prop_name @ '': _('' @ dq @ ''$0'' @ dq @ '');''
                 else prop_name @ '': '' @ dq @ ''$0'' @ dq @ '';'')
         else if is_Enumeration k \<and> length (members k) \<le> 10
                 \<and> client_supports_completion_choice lsp then
           item (prop_name @ '': ${1|'' @ join '','' (members k) @ ''|};'')
         else if full_name (ptype prop) = ''Gtk.Expression'' then
           item (prop_name @ '': expr $0;'')
         else
           item (prop_name @ '': $0;''))"

definition property_completer :: "LanguageServer \<Rightarrow> ContentNode \<Rightarrow> Completion list" where
  "property_completer lsp ast_node =
     (case gir_class ast_node of
        None \<Rightarrow> []
      | Some cls \<Rightarrow>
          (case properties cls of
             None \<Rightarrow> []
           | Some props \<Rightarrow> map (\<lambda>(prop_name, prop). property_completion lsp prop_name prop) props))"

text \<open>
  The handler name of \<^verbatim>\<open>signal_completer\<close>: \<^verbatim>\<open>"on"\<close> unless the parent is an object,
  else \<^verbatim>\<open>"on_"\<close> and the identifier, or the lower-cased class name when the identifier
  is missing or empty (Python's \<^verbatim>\<open>or\<close>).
\<close>

definition handler_prefix :: "ParentNode \<Rightarrow> string" where
  "handler_prefix p =
     (case p of
        NotObject \<Rightarrow> ''on''
      | Object ident class_name \<Rightarrow>
          ''on_'' @ (case ident of
                      None \<Rightarrow> lower class_name
                    | Some i \<Rightarrow> if i = [] then lower class_name else i))"

definition signal_completion :: "ContentNode \<Rightarrow> string \<Rightarrow> GirSignal \<Rightarrow> Completion" where
  "signal_completion ast_node signal_name signal =
     \<lparr>label = signal_name, kind = Event,
      sort_text = Some (''1 '' @ signal_name),
      snippet = Some (signal_name @ '' => '' @ backslash @ ''$${1:$'' @ handler_prefix (parent ast_node)
                        @ ''_'' @ replace_dash signal_name @ ''}()$0;''),
      plain_text = None, docs = sdoc signal, detail = sdetail signal\<rparr>"

definition signal_completer :: "LanguageServer \<Rightarrow> ContentNode \<Rightarrow> Completion list" where
  "signal_completer lsp ast_node =
     (case gir_class ast_node of
        None \<Rightarrow> []
      | Some cls \<Rightarrow>
          (case signals cls of
             None \<Rightarrow> []
           | Some sigs \<Rightarrow> map (\<lambda>(signal_name, signal). signal_completion ast_node signal_name signal) sigs))"

section \<open>Diagnostics\<close>

text \<open>
  Modelled from the spec: \<^verbatim>\<open>errors.py\<close> is not among the sources. A diagnostic record
  holds a message, a source range, its kind (the fatal \<^verbatim>\<open>CompileError\<close> or the
  non-fatal \<^verbatim>\<open>UpgradeWarning\<close> advisory) and its quick-fix actions, each a label and a
  replacement text. The sources raise both kinds with a message and, by keyword, the
  actions; the range is attached later.
\<close>

record CodeAction =
  title :: string
  replace_with :: string

datatype DiagnosticKind = CompileError | UpgradeWarning

record Diagnostic =
  dkind :: DiagnosticKind
  message :: string
  range :: "(int \<times> int) option"
  actions :: "CodeAction list"

definition fatal :: "Diagnostic \<Rightarrow> bool" where
  "fatal d \<longleftrightarrow> dkind d = CompileError"

definition raise_CompileError :: "string \<Rightarrow> Diagnostic" where
  "raise_CompileError msg = \<lparr>dkind = CompileError, message = msg, range = None, actions = []\<rparr>"

definition raise_UpgradeWarning :: "string \<Rightarrow> CodeAction list \<Rightarrow> Diagnostic" where
  "raise_UpgradeWarning msg acts = \<lparr>dkind = UpgradeWarning, message = msg, range = None, actions = acts\<rparr>"

section \<open>Validators of the language extensions\<close>

text \<open>
  Modelled from the spec: \<^verbatim>\<open>AstNode.validate_unique_in_parent\<close> is defined in
  \<^verbatim>\<open>ast_utils.py\<close>, which is not among the sources. The spec: a validator that needs a
  uniqueness check among the sibling nodes of one kind under the same parent reports
  one diagnostic per duplicate found, excluding the first occurrence. So a node raises
  the error when a sibling of its kind that stands before it passes \<open>check\<close>;
  \<open>before\<close> lists those siblings in source order.
\<close>

definition validate_unique_in_parent :: "'n list \<Rightarrow> string \<Rightarrow> ('n \<Rightarrow> bool) \<Rightarrow> Diagnostic option" where
  "validate_unique_in_parent before error check =
     (if list_ex check before then Some (raise_CompileError error) else None)"

text \<open>
  Modelled from the spec: the \<^verbatim>\<open>@validate\<close> decorator is defined in \<^verbatim>\<open>ast_utils.py\<close>.
  Every diagnostic carries a source range: the one a validator raises gets the range of
  the token the decorator names.
\<close>

definition validate :: "int \<times> int \<Rightarrow> Diagnostic option \<Rightarrow> Diagnostic option" where
  "validate token_range r = map_option (\<lambda>d. d\<lparr>range := Some token_range\<rparr>) r"

subsection \<open>adw\_response\_dialog.py\<close>

text \<open>
  A flag node holds one of the words \<^verbatim>\<open>destructive\<close>, \<^verbatim>\<open>suggested\<close>, \<^verbatim>\<open>disabled\<close>
  and the range of the node; a response holds its \<^verbatim>\<open>id\<close>, the range of that token and
  its flags in source order.
\<close>

record ExtAdwResponseDialogFlag =
  flag :: string
  flag_range :: "int \<times> int"

record ExtAdwResponseDialogResponse =
  rid :: string
  rid_range :: "int \<times> int"
  flags :: "ExtAdwResponseDialogFlag list"

text \<open>
  \<^verbatim>\<open>ExtAdwResponseDialogFlag.unique\<close> and \<^verbatim>\<open>.exclusive\<close>, for the flag at position
  \<open>k\<close> of a response's flags.
\<close>

definition flag_unique :: "ExtAdwResponseDialogFlag list \<Rightarrow> nat \<Rightarrow> Diagnostic option" where
  "flag_unique fs k =
     validate (flag_range (fs ! k))
       (validate_unique_in_parent (take k fs)
          (''Duplicate '' @ sq @ flag (fs ! k) @ sq @ '' flag'')
          (\<lambda>child. flag child = flag (fs ! k)))"

definition flag_exclusive :: "ExtAdwResponseDialogFlag list \<Rightarrow> nat \<Rightarrow> Diagnostic option" where
  "flag_exclusive fs k =
     validate (flag_range (fs ! k))
       (if flag (fs ! k) \<in> set [''destructive'', ''suggested''] then
          validate_unique_in_parent (take k fs)
            (sq @ ''suggested'' @ sq @ '' and '' @ sq @ ''destructive'' @ sq @ '' are exclusive'')
            (\<lambda>child. flag child \<in> set [''destructive'', ''suggested''])
        else None)"

text \<open>
  \<^verbatim>\<open>ExtAdwResponseDialogResponse.unique_in_parent\<close>, for the response at position \<open>k\<close>
  of the responses block (its children are the responses).
\<close>

definition response_unique_in_parent :: "ExtAdwResponseDialogResponse list \<Rightarrow> nat \<Rightarrow> Diagnostic option" where
  "response_unique_in_parent rs k =
     validate (rid_range (rs ! k))
       (validate_unique_in_parent (take k rs)
          (''Duplicate response ID '' @ sq @ rid (rs ! k) @ sq) (\<lambda>child. rid child = rid (rs ! k)))"

text \<open>
  Modelled from the spec: every node's validators run once and all diagnostics are
  collected. The duplicate diagnostics of a responses block, each with the position of
  the response that reports it.
\<close>

definition duplicate_diagnostics :: "ExtAdwResponseDialogResponse list \<Rightarrow> (nat \<times> Diagnostic) list" where
  "duplicate_diagnostics rs =
     concat (map (\<lambda>k. case response_unique_in_parent rs k of None \<Rightarrow> [] | Some d \<Rightarrow> [(k, d)])
               [0..<length rs])"

text \<open>
  Modelled from the spec: the same collection for the validator \<^verbatim>\<open>exclusive\<close> over the
  flags of one response.
\<close>

definition exclusive_diagnostics :: "ExtAdwResponseDialogFlag list \<Rightarrow> (nat \<times> Diagnostic) list" where
  "exclusive_diagnostics fs =
     concat (map (\<lambda>k. case flag_exclusive fs k of None \<Rightarrow> [] | Some d \<Rightarrow> [(k, d)])
               [0..<length fs])"

subsection \<open>gtk\_list\_item\_factory.py\<close>

text \<open>
  A \<^verbatim>\<open>template\<close> block of a list item factory: its \<^verbatim>\<open>TypeName\<close> children (none or
  one, the grammar has \<^verbatim>\<open>Optional(TypeName)\<close>), each with its \<^verbatim>\<open>glib_type_name\<close>,
  the range of the \<^verbatim>\<open>template\<close> keyword, stored under \<^verbatim>\<open>"id"\<close>, and the range
  between the marks \<^verbatim>\<open>typename_start\<close> and \<^verbatim>\<open>typename_end\<close>.
\<close>

record TypeName =
  glib_type_name :: string

record ExtListItemFactory =
  type_name_children :: "TypeName list"
  id_range :: "int \<times> int"
  typename_range :: "int \<times> int"

definition type_name :: "ExtListItemFactory \<Rightarrow> TypeName option" where
  "type_name self =
     (if length (type_name_children self) = 1 then Some (type_name_children self ! 0) else None)"

definition type_is_list_item :: "ExtListItemFactory \<Rightarrow> Diagnostic option" where
  "type_is_list_item self =
     validate (typename_range self)
       (case type_name self of
          None \<Rightarrow> None
        | Some t \<Rightarrow>
            if glib_type_name t \<notin> set [''GtkListItem'', ''GtkListHeader'', ''GtkColumnViewRow'',
                                        ''GtkColumnViewCell'']
            then Some (raise_CompileError
              ''Only Gtk.ListItem, Gtk.ListHeader, Gtk.ColumnViewRow, or Gtk.ColumnViewCell is allowed as a type here'')
            else None)"

definition type_name_upgrade :: "ExtListItemFactory \<Rightarrow> Diagnostic option" where
  "type_name_upgrade self =
     validate (id_range self)
       (if type_name self = None then
          Some (raise_UpgradeWarning
            (''Expected type name after '' @ sq @ ''template'' @ sq @ '' keyword'')
            [\<lparr>title = ''Add ListItem type to template block (introduced in blueprint 0.8.0)'',
              replace_with = ''template ListItem''\<rparr>])
        else None)"

section \<open>Example inputs\<close>

text \<open>
  The tokens of the text \<^verbatim>\<open>a.b{c:d;e f\<close>, end-of-file token included. Every token
  holds the whole text, as \<^verbatim>\<open>parse\<close> reads it from \<^verbatim>\<open>tokens[0].string\<close>.
\<close>

definition example_token :: "TokenType \<Rightarrow> int \<Rightarrow> int \<Rightarrow> Token" where
  "example_token k s e = \<lparr>ttype = k, tstart = s, tend = e, tstring = ''a.b{c:d;e f''\<rparr>"

definition example_tokens :: "Token list" where
  "example_tokens =
     [example_token IDENT 0 1, example_token OP 1 2, example_token IDENT 2 3,
      example_token PUNCTUATION 3 4, example_token IDENT 4 5, example_token OP 5 6,
      example_token IDENT 6 7, example_token PUNCTUATION 7 8, example_token IDENT 8 9,
      example_token WHITESPACE 9 10, example_token IDENT 10 11, example_token EOF 11 11]"

text \<open>
  A tree over that text: the root spans it all; its first child, spanning
  \<^verbatim>\<open>a.b{c:\<close>, is incomplete and ends where the second child, \<^verbatim>\<open>d;\<close>, starts. The
  completers are numbered.
\<close>

definition example_first :: "nat AstNode" where
  "example_first = AstNode 0 6 True [1] [AstNode 4 6 True [3] []]"

definition example_second :: "nat AstNode" where
  "example_second = AstNode 6 8 False [2] []"

definition example_root :: "nat AstNode" where
  "example_root = AstNode 0 11 False [0] [example_first, example_second]"

text \<open>
  A class with a boolean, a translatable string and an enumeration property and two
  signals, and an object-content node of that class inside an object \<^verbatim>\<open>Button\<close>.
\<close>

definition example_class :: GirClass where
  "example_class =
     \<lparr>properties = Some
        [(''visible'', \<lparr>ptype = \<lparr>type_kind = BoolType, full_name = ''bool''\<rparr>,
                       pdoc = None, pdetail = None, translated = False\<rparr>),
         (''label'', \<lparr>ptype = \<lparr>type_kind = StringType, full_name = ''string''\<rparr>,
                     pdoc = None, pdetail = None, translated = True\<rparr>),
         (''halign'', \<lparr>ptype = \<lparr>type_kind = Enumeration [''fill'', ''start'', ''end''],
                                full_name = ''Gtk.Align''\<rparr>,
                      pdoc = None, pdetail = None, translated = False\<rparr>)],
      signals = Some
        [(''clicked'', \<lparr>sdoc = None, sdetail = None\<rparr>),
         (''notify-label'', \<lparr>sdoc = None, sdetail = None\<rparr>)]\<rparr>"

definition example_content :: ContentNode where
  "example_content = \<lparr>gir_class = Some example_class, parent = Object None ''Button''\<rparr>"

text \<open>
  The responses of the block
  \<^verbatim>\<open>responses [ cancel: "a", save: "b" suggested, cancel: "c" destructive destructive ]\<close>.
\<close>

definition example_responses :: "ExtAdwResponseDialogResponse list" where
  "example_responses =
     [\<lparr>rid = ''cancel'', rid_range = (12, 18), flags = []\<rparr>,
      \<lparr>rid = ''save'', rid_range = (25, 29),
        flags = [\<lparr>flag = ''suggested'', flag_range = (35, 44)\<rparr>]\<rparr>,
      \<lparr>rid = ''cancel'', rid_range = (46, 52),
        flags = [\<lparr>flag = ''destructive'', flag_range = (58, 69)\<rparr>,
                 \<lparr>flag = ''destructive'', flag_range = (70, 81)\<rparr>]\<rparr>]"

text \<open>A \<^verbatim>\<open>template { ... }\<close> block without a type name.\<close>

definition example_template :: ExtListItemFactory where
  "example_template = \<lparr>type_name_children = [], id_range = (0, 8), typename_range = (8, 8)\<rparr>"

section \<open>Properties of the completion resolver\<close>

subsection \<open>The window of preceding tokens\<close>

lemma collect_prev_eq:
  "length prev \<le> 5 \<Longrightarrow> token_idx < int (length tokens) \<Longrightarrow>
   collect_prev tokens prev token_idx =
     Inr (let ys = filter (\<lambda>t. ttype t \<notin> set SKIP_TOKENS) (take (nat (token_idx + 1)) tokens) @ prev
          in drop (length ys - 5) ys)"
proof (induction tokens prev token_idx rule: collect_prev.induct)
  case (1 tokens prev token_idx)
  show ?case
  proof (cases "length prev < 5 \<and> token_idx \<ge> 0")
    case False
    then show ?thesis using "1.prems"
      by (subst collect_prev.simps) (auto simp: Let_def)
  next
    case True
    then have i: "py_index tokens token_idx = Inr (tokens ! nat token_idx)"
      using "1.prems" by (simp add: py_index_def Let_def)
    have tk: "take (nat (token_idx + 1)) tokens = take (nat token_idx) tokens @ [tokens ! nat token_idx]"
    proof -
      have "nat token_idx < length tokens" using True "1.prems" by linarith
      moreover have "nat (token_idx + 1) = Suc (nat token_idx)" using True by linarith
      ultimately show ?thesis by (simp add: take_Suc_conv_app_nth)
    qed
    have eq: "nat (token_idx - 1 + 1) = nat token_idx" by simp
    show ?thesis
      using True "1.prems" "1.IH"[OF True i]
      by (subst collect_prev.simps) (simp add: i tk eq Let_def del: collect_prev.simps)
  qed
qed

lemma window_props:
  assumes "ys = filter (\<lambda>t. ttype t \<notin> set SKIP_TOKENS) xs" and "w = drop (length ys - 5) ys"
  shows "length w \<le> 5" and "\<forall>tok\<in>set w. ttype tok \<noteq> WHITESPACE \<and> ttype tok \<noteq> COMMENT"
proof -
  show "length w \<le> 5" using assms by simp
  have "set w \<subseteq> set ys" using assms(2) set_drop_subset by metis
  then show "\<forall>tok\<in>set w. ttype tok \<noteq> WHITESPACE \<and> ttype tok \<noteq> COMMENT"
    using assms(1) by (auto simp: SKIP_TOKENS_def)
qed

subsection \<open>The descent through the tree\<close>

lemma descent_nonempty: "descent n idx \<noteq> []"
  by (cases n) simp

lemma descent_hd: "hd (descent n idx) = n"
  by (cases n) simp

lemma descent_children_find:
  "descent_children chn idx = (case find (in_span idx) chn of None \<Rightarrow> [] | Some c \<Rightarrow> descent c idx)"
  by (induction chn) auto

lemma complete_children_find:
  "complete_children chn tokens idx t =
     map_option (\<lambda>c. complete_node c tokens idx t) (find (in_span idx) chn)"
  by (induction chn) auto

lemma complete_node_unfold:
  "complete_node n tokens idx t =
     (case find (in_span idx) (children n) of
        None \<Rightarrow> dispatch n tokens t
      | Some c \<Rightarrow> complete_node c tokens idx t)"
  by (cases n) (simp add: complete_children_find split: option.splits)

lemma descent_unfold:
  "descent n idx =
     n # (case find (in_span idx) (children n) of None \<Rightarrow> [] | Some c \<Rightarrow> descent c idx)"
  by (cases n) (simp add: descent_children_find)

lemma complete_node_last:
  "complete_node (n :: 'c AstNode) tokens idx t = dispatch (last (descent n idx)) tokens t"
  and complete_children_last: "complete_children (chn :: 'c AstNode list) tokens idx t =
     (if descent_children chn idx = [] then None
      else Some (dispatch (last (descent_children chn idx)) tokens t))"
proof (induction n tokens idx t and chn tokens idx t rule: complete_node_complete_children.induct)
  case (1 s e inc cs chn tokens idx token_idx)
  then show ?case by (simp add: descent_nonempty)
next
  case (2 tokens idx token_idx)
  then show ?case by simp
next
  case (3 child rest tokens idx token_idx)
  then show ?case by (simp add: descent_nonempty)
qed

lemma descent_size:
  "m \<in> set (tl (descent n idx)) \<Longrightarrow> size m < size n"
  and descent_children_size:
    "m \<in> set (descent_children chn idx) \<Longrightarrow> size m \<le> size_list size chn"
proof (induction n idx and chn idx arbitrary: m and m rule: descent_descent_children.induct)
  case (1 s e inc cs chn idx)
  then show ?case by fastforce
next
  case (2 idx)
  then show ?case by simp
next
  case (3 child rest idx)
  show ?case
  proof (cases "in_span idx child")
    case True
    with 3 have "m \<in> set (descent child idx)" by simp
    then have "m = child \<or> m \<in> set (tl (descent child idx))"
      using descent_hd[of child idx] descent_nonempty[of child idx]
      by (cases "descent child idx") auto
    then show ?thesis using 3(1)[OF True] by fastforce
  next
    case False
    then show ?thesis using 3 by fastforce
  qed
qed

subsection \<open>The anchoring loops of \<^verbatim>\<open>complete\<close>\<close>

lemma move_back_in_range:
  "move_back tokens idx token_idx = Inr (idx', t) \<Longrightarrow> t < int (length tokens)"
proof (induction tokens idx token_idx rule: move_back.induct)
  case (1 tokens idx token_idx)
  show ?case
  proof (cases "py_index tokens token_idx")
    case (Inl e)
    with "1.prems" show ?thesis by (subst (asm) move_back.simps) simp
  next
    case (Inr token)
    then have r: "token_idx < int (length tokens)"
      by (auto simp: py_index_def Let_def split: if_splits)
    show ?thesis
    proof (cases "ttype token \<in> set [IDENT, WHITESPACE]")
      case True
      with "1.prems" Inr have "move_back tokens (tstart token) (token_idx - 1) = Inr (idx', t)"
        by (subst (asm) move_back.simps) simp
      with "1.IH"[OF Inr True] show ?thesis .
    next
      case False
      with "1.prems" Inr have "t = token_idx"
        by (subst (asm) move_back.simps) simp
      with r show ?thesis by simp
    qed
  qed
qed

lemma find_first:
  "P c \<Longrightarrow> (\<forall>b\<in>set before. \<not> P b) \<Longrightarrow> find P (before @ c # after) = Some c"
  by (induction before) auto

lemma descent_distinct:
  "distinct (descent (n :: 'c AstNode) idx)"
  and descent_children_distinct: "distinct (descent_children (chn :: 'c AstNode list) idx)"
proof (induction n idx and chn idx rule: descent_descent_children.induct)
  case (1 s e inc cs chn idx)
  have "AstNode s e inc cs chn \<notin> set (descent_children chn idx)"
    using descent_children_size[of "AstNode s e inc cs chn" chn idx] by auto
  with 1 show ?case by simp
next
  case (2 idx)
  then show ?case by simp
next
  case (3 child rest idx)
  then show ?case by simp
qed

lemma descent_last_not_ancestor:
  "a \<in> set (butlast (descent n idx)) \<Longrightarrow> a \<noteq> last (descent n idx)"
proof -
  assume a: "a \<in> set (butlast (descent n idx))"
  have "distinct (butlast (descent n idx) @ [last (descent n idx)])"
    using descent_distinct[of n idx] descent_nonempty[of n idx] by simp
  with a show ?thesis by auto
qed

lemma dispatch_Inr:
  "dispatch m tokens t = Inr invs \<Longrightarrow>
   \<exists>w. invs = map (\<lambda>c. \<lparr>inv_completer = c, inv_prev_tokens = w, inv_node = m\<rparr>) (completers m)"
  unfolding dispatch_def by (cases "collect_prev tokens [] t") auto

lemma find_current_token_snoc:
  "find_current_token (xs @ [x]) idx =
     (if tstart x < idx \<and> idx \<le> tend x then int (length xs) else find_current_token xs idx)"
  by (simp add: find_current_token_def enumerate_append_eq)

lemma find_current_token_none:
  "(\<forall>k<length tokens. \<not> (tstart (tokens ! k) < idx \<and> idx \<le> tend (tokens ! k))) \<Longrightarrow>
   find_current_token tokens idx = 0"
proof (induction tokens rule: rev_induct)
  case Nil
  then show ?case by (simp add: find_current_token_def)
next
  case (snoc x xs)
  have last: "\<not> (tstart x < idx \<and> idx \<le> tend x)"
    using snoc.prems[rule_format, of "length xs"] by simp
  have "\<forall>k<length xs. \<not> (tstart (xs ! k) < idx \<and> idx \<le> tend (xs ! k))"
  proof (intro allI impI)
    fix k assume "k < length xs"
    then show "\<not> (tstart (xs ! k) < idx \<and> idx \<le> tend (xs ! k))"
      using snoc.prems[rule_format, of k] by (simp add: nth_append)
  qed
  with snoc.IH last show ?case by (auto simp: find_current_token_snoc)
qed

lemma find_current_token_last:
  "i < length tokens \<Longrightarrow> tstart (tokens ! i) < idx \<and> idx \<le> tend (tokens ! i) \<Longrightarrow>
   (\<forall>k. i < k \<and> k < length tokens \<longrightarrow> \<not> (tstart (tokens ! k) < idx \<and> idx \<le> tend (tokens ! k))) \<Longrightarrow>
   find_current_token tokens idx = int i"
proof (induction tokens rule: rev_induct)
  case Nil
  then show ?case by simp
next
  case (snoc x xs)
  show ?case
  proof (cases "i = length xs")
    case True
    then show ?thesis using snoc.prems(2) by (simp add: find_current_token_snoc)
  next
    case False
    then have i: "i < length xs" using snoc.prems(1) by simp
    have last: "\<not> (tstart x < idx \<and> idx \<le> tend x)"
      using snoc.prems(3)[rule_format, of "length xs"] i by simp
    have here: "tstart (xs ! i) < idx \<and> idx \<le> tend (xs ! i)"
      using snoc.prems(2) i by (simp add: nth_append)
    have later: "\<forall>k. i < k \<and> k < length xs \<longrightarrow> \<not> (tstart (xs ! k) < idx \<and> idx \<le> tend (xs ! k))"
    proof (intro allI impI)
      fix k assume "i < k \<and> k < length xs"
      then show "\<not> (tstart (xs ! k) < idx \<and> idx \<le> tend (xs ! k))"
        using snoc.prems(3)[rule_format, of k] by (simp add: nth_append)
    qed
    from snoc.IH[OF i here later] last show ?thesis by (auto simp: find_current_token_snoc)
  qed
qed

lemma py_index_nat: "i < length xs \<Longrightarrow> py_index xs (int i) = Inr (xs ! i)"
  by (simp add: py_index_def Let_def)

lemma move_back_run:
  "j \<le> i \<Longrightarrow> i < length tokens \<Longrightarrow> ttype (tokens ! j) \<notin> set [IDENT, WHITESPACE] \<Longrightarrow>
   (\<forall>k. j < k \<and> k \<le> i \<longrightarrow> ttype (tokens ! k) \<in> set [IDENT, WHITESPACE]) \<Longrightarrow>
   move_back tokens idx (int i) =
     Inr (if j = i then idx else tstart (tokens ! Suc j), int j)"
proof (induction i arbitrary: idx)
  case 0
  then show ?case
    by (subst move_back.simps) (simp add: py_index_def Let_def del: move_back.simps)
next
  case (Suc i)
  show ?case
  proof (cases "j = Suc i")
    case True
    have pi: "py_index tokens (int (Suc i)) = Inr (tokens ! Suc i)"
      using Suc.prems(2) by (rule py_index_nat)
    from True show ?thesis using Suc.prems(3)
      by (subst move_back.simps, subst pi) (simp del: move_back.simps)
  next
    case False
    then have ji: "j \<le> i" using Suc.prems(1) by simp
    have triv: "ttype (tokens ! Suc i) \<in> set [IDENT, WHITESPACE]"
      using Suc.prems(4)[rule_format, of "Suc i"] False Suc.prems(1) by simp
    have rest: "\<forall>k. j < k \<and> k \<le> i \<longrightarrow> ttype (tokens ! k) \<in> set [IDENT, WHITESPACE]"
      using Suc.prems(4) by simp
    have il: "i < length tokens" using Suc.prems(2) by simp
    have pi: "py_index tokens (int (Suc i)) = Inr (tokens ! Suc i)"
      using Suc.prems(2) by (rule py_index_nat)
    have step: "move_back tokens idx (int (Suc i)) = move_back tokens (tstart (tokens ! Suc i)) (int i)"
      using triv
      by (subst move_back.simps, subst pi) (simp del: move_back.simps)
    have "move_back tokens (tstart (tokens ! Suc i)) (int i) =
            Inr (if j = i then tstart (tokens ! Suc i) else tstart (tokens ! Suc j), int j)"
      using Suc.IH[OF ji il Suc.prems(3) rest] .
    with step False show ?thesis by auto
  qed
qed

section \<open>Properties of the suggestion generators\<close>

lemma zero_less_one_key: "''0 '' @ a < ''1 '' @ b"
  by (simp add: less_char_def)

lemma property_completer_nth:
  assumes "gir_class node = Some cls" and "properties cls = Some props" and "i < length props"
  shows "property_completer lsp node ! i = property_completion lsp (fst (props ! i)) (snd (props ! i))"
  using assms by (simp add: property_completer_def case_prod_beta)

lemma property_completer_sort_text:
  "p \<in> set (property_completer lsp node) \<Longrightarrow> sort_text p = Some (''0 '' @ label p)"
  by (auto simp: property_completer_def property_completion_def Let_def
      split: option.splits if_splits)

lemma signal_completer_sort_text:
  "s \<in> set (signal_completer lsp node) \<Longrightarrow> sort_text s = Some (''1 '' @ label s)"
  by (auto simp: signal_completer_def signal_completion_def split: option.splits)

section \<open>Properties of the validators\<close>

lemma list_ex_take:
  assumes "k \<le> length xs"
  shows "list_ex P (take k xs) \<longleftrightarrow> (\<exists>a<k. P (xs ! a))"
proof
  assume "list_ex P (take k xs)"
  then obtain x where x: "x \<in> set (take k xs)" and p: "P x"
    by (auto simp: list_ex_iff)
  from x obtain a where "a < length (take k xs)" and "take k xs ! a = x"
    by (auto simp: in_set_conv_nth)
  then have "a < k" and "xs ! a = x" by simp_all
  with p show "\<exists>a<k. P (xs ! a)" by blast
next
  note a = assms
  assume "\<exists>a<k. P (xs ! a)"
  then obtain a where ak: "a < k" and p: "P (xs ! a)" by blast
  have "take k xs ! a \<in> set (take k xs)"
    using ak a by (intro nth_mem) simp
  then have "xs ! a \<in> set (take k xs)" using ak by simp
  with p show "list_ex P (take k xs)" by (auto simp: list_ex_iff)
qed

lemma concat_map_single:
  assumes "j < n" and "\<forall>k<n. k \<noteq> j \<longrightarrow> f k = []"
  shows "concat (map f [0..<n]) = f j"
proof -
  have split: "[0..<n] = [0..<j] @ j # [Suc j..<n]"
    using assms(1) by (metis less_imp_le_nat upt_add_eq_append upt_conv_Cons le0 le_add_diff_inverse)
  have a: "concat (map f [0..<j]) = []"
    using assms by auto
  have b: "concat (map f [Suc j..<n]) = []"
    using assms by auto
  show ?thesis
    by (subst split) (simp add: a b)
qed

lemma response_unique_in_parent_iff:
  assumes "k < length rs"
  shows "response_unique_in_parent rs k =
           (if \<exists>a<k. rid (rs ! a) = rid (rs ! k)
            then Some \<lparr>dkind = CompileError,
                       message = ''Duplicate response ID '' @ sq @ rid (rs ! k) @ sq,
                       range = Some (rid_range (rs ! k)), actions = []\<rparr>
            else None)"
  using assms
  by (simp add: response_unique_in_parent_def validate_def validate_unique_in_parent_def
      raise_CompileError_def list_ex_take)

subsection \<open>Claims about the resolver\<close>

text \<open>
  Claim C4. The window handed to the completers holds at most 5 tokens, none of them
  whitespace or a comment, and is made of the last non-skippable tokens up to the
  anchored token, in source order: with \<open>ys\<close> the non-skippable tokens among
  \<open>tokens[0 .. token_idx]\<close>, the window is the last 5 of \<open>ys\<close> (all of \<open>ys\<close> when it
  has fewer), and every completer of the innermost node is called with it. The index
  is in range for every call that \<^verbatim>\<open>complete\<close> makes (\<open>move_back_in_range\<close>); a
  negative index gives the empty window.
\<close>

theorem trailing_window:
  assumes "token_idx < int (length tokens)"
    and "ys = filter (\<lambda>t. ttype t \<notin> set SKIP_TOKENS) (take (nat (token_idx + 1)) tokens)"
    and "w = drop (length ys - 5) ys"
    and "m = last (descent n idx)"
  shows "complete_node n tokens idx token_idx =
           Inr (map (\<lambda>c. \<lparr>inv_completer = c, inv_prev_tokens = w, inv_node = m\<rparr>) (completers m))
         \<and> length w \<le> 5
         \<and> (\<forall>tok\<in>set w. ttype tok \<noteq> WHITESPACE \<and> ttype tok \<noteq> COMMENT)"
proof -
  have "collect_prev tokens [] token_idx = Inr w"
    using assms(1-3) collect_prev_eq[of "[]" token_idx tokens] by (simp add: Let_def)
  then have "complete_node n tokens idx token_idx =
      Inr (map (\<lambda>c. \<lparr>inv_completer = c, inv_prev_tokens = w, inv_node = m\<rparr>) (completers m))"
    using assms(4) by (simp add: complete_node_last dispatch_def)
  then show ?thesis using window_props[OF assms(2,3)] by simp
qed

theorem trailing_window_witness:
  "(10::int) < int (length example_tokens)
   \<and> complete_node example_second example_tokens 7 10 =
       Inr [\<lparr>inv_completer = 2,
             inv_prev_tokens =
               [example_token OP 5 6, example_token IDENT 6 7, example_token PUNCTUATION 7 8,
                example_token IDENT 8 9, example_token IDENT 10 11],
             inv_node = example_second\<rparr>]"
proof -
  have h: "(10::int) < int (length example_tokens)" by (simp add: example_tokens_def)
  show ?thesis
    using h trailing_window [OF h refl refl refl, of example_second 7]
    by (simp add: example_tokens_def example_second_def example_token_def SKIP_TOKENS_def)
qed

text \<open>
  Claim C2, as stated: at each level the resolver enters a child exactly when that
  child's span takes the offset. This fails where two children qualify: in the example
  tree the first child is incomplete and ends at offset 6, where the second child
  starts, so both spans take the offset 6 (the anchor of a cursor at offset 7), and the
  resolver enters the first child only; the loop returns after the first match.
\<close>

theorem descend_counterexample:
  "in_span 6 example_first \<and> in_span 6 example_second
   \<and> children example_root = [example_first, example_second]
   \<and> complete_node example_root example_tokens 6 5 =
       Inr [\<lparr>inv_completer = 3,
             inv_prev_tokens =
               [example_token OP 1 2, example_token IDENT 2 3, example_token PUNCTUATION 3 4,
                example_token IDENT 4 5, example_token OP 5 6],
             inv_node = AstNode 4 6 True [3] []\<rparr>]
   \<and> complete_node example_second example_tokens 6 5 =
       Inr [\<lparr>inv_completer = 2,
             inv_prev_tokens =
               [example_token OP 1 2, example_token IDENT 2 3, example_token PUNCTUATION 3 4,
                example_token IDENT 4 5, example_token OP 5 6],
             inv_node = example_second\<rparr>]"
  by (simp add: example_root_def example_first_def example_second_def in_span_def dispatch_def
      example_tokens_def example_token_def SKIP_TOKENS_def py_index_def)

text \<open>
  Claim C2, amended: the resolver enters the first child, in the order of the
  children, whose span takes the offset, and returns that child's result; later
  children are not looked at. A span takes the offset when it starts at or before it
  and either ends after it, or ends at it and the child is incomplete. When no child
  qualifies the node itself is the innermost match: its completers are dispatched.
\<close>

theorem descend_first_in_span:
  "((\<forall>c\<in>set (children n). \<not> in_span idx c) \<longrightarrow>
       complete_node n tokens idx t = dispatch n tokens t)
   \<and> (\<forall>before c after.
         children n = before @ c # after \<and> in_span idx c \<and> (\<forall>b\<in>set before. \<not> in_span idx b) \<longrightarrow>
         complete_node n tokens idx t = complete_node c tokens idx t)
   \<and> (\<forall>c :: 'c AstNode. in_span idx c \<longleftrightarrow>
         gstart c \<le> idx \<and> (idx < gend c \<or> (idx = gend c \<and> incomplete c)))"
proof (intro conjI allI impI)
  assume "\<forall>c\<in>set (children n). \<not> in_span idx c"
  then have "find (in_span idx) (children n) = None" by (simp add: find_None_iff)
  then show "complete_node n tokens idx t = dispatch n tokens t"
    by (simp add: complete_node_unfold[of n])
next
  fix before c after
  assume "children n = before @ c # after \<and> in_span idx c \<and> (\<forall>b\<in>set before. \<not> in_span idx b)"
  then have "find (in_span idx) (children n) = Some c"
    by (simp add: find_first)
  then show "complete_node n tokens idx t = complete_node c tokens idx t"
    by (simp add: complete_node_unfold[of n])
next
  fix c :: "'c AstNode"
  show "in_span idx c \<longleftrightarrow> gstart c \<le> idx \<and> (idx < gend c \<or> (idx = gend c \<and> incomplete c))"
    by (simp add: in_span_def)
qed

theorem descend_first_in_span_witness:
  "children example_root = [] @ example_first # [example_second]
   \<and> in_span 6 example_first
   \<and> complete_node example_root example_tokens 6 5 = complete_node example_first example_tokens 6 5
   \<and> \<not> in_span 9 example_first \<and> \<not> in_span 9 example_second
   \<and> complete_node example_root example_tokens 9 8 = dispatch example_root example_tokens 8"
proof -
  have c: "children example_root = [] @ example_first # [example_second]"
    by (simp add: example_root_def)
  have s: "in_span 6 example_first"
    by (simp add: in_span_def example_first_def)
  have n: "\<not> in_span 9 example_first" "\<not> in_span 9 example_second"
    by (simp_all add: in_span_def example_first_def example_second_def)
  have none: "\<forall>c\<in>set (children example_root). \<not> in_span 9 c"
    using n by (simp add: example_root_def)
  have 1: "complete_node example_root example_tokens 6 5 = complete_node example_first example_tokens 6 5"
    using descend_first_in_span [of example_root 6 example_tokens 5, THEN conjunct2, THEN conjunct1,
        rule_format, of "[]" example_first "[example_second]"] c s
    by simp
  have 2: "complete_node example_root example_tokens 9 8 = dispatch example_root example_tokens 8"
    using descend_first_in_span [of example_root 9 example_tokens 8, THEN conjunct1] none
    by simp
  from c s n 1 2 show ?thesis by simp
qed

text \<open>
  Claim C9. Every completer call of one request is made on one node, the last node of
  the descent (the innermost match), with exactly that node's completers in their
  order; no node the resolver passed through on the way down (the enclosing node and
  every other ancestor) is the node of a call. The descent enters, at each node, the
  first child whose span takes the offset (\<open>descent_unfold\<close>).
\<close>

theorem single_node_dispatch:
  assumes "complete_node n tokens idx t = Inr invs"
  shows "map inv_completer invs = completers (last (descent n idx))
         \<and> (\<forall>inv\<in>set invs. inv_node inv = last (descent n idx))
         \<and> (\<forall>a\<in>set (butlast (descent n idx)). \<forall>inv\<in>set invs. inv_node inv \<noteq> a)"
proof -
  have "dispatch (last (descent n idx)) tokens t = Inr invs"
    using assms complete_node_last[of n tokens idx t] by simp
  then obtain w where
    invs: "invs = map (\<lambda>c. \<lparr>inv_completer = c, inv_prev_tokens = w, inv_node = last (descent n idx)\<rparr>)
                        (completers (last (descent n idx)))"
    using dispatch_Inr by blast
  have 1: "map inv_completer invs = completers (last (descent n idx))"
    unfolding invs by (simp add: comp_def)
  have 2: "\<forall>inv\<in>set invs. inv_node inv = last (descent n idx)"
    unfolding invs by simp
  have 3: "\<forall>a\<in>set (butlast (descent n idx)). \<forall>inv\<in>set invs. inv_node inv \<noteq> a"
  proof (intro ballI)
    fix a inv
    assume "a \<in> set (butlast (descent n idx))" and "inv \<in> set invs"
    then show "inv_node inv \<noteq> a"
      using 2 descent_last_not_ancestor[of a n idx] by auto
  qed
  from 1 2 3 show ?thesis by simp
qed

theorem single_node_dispatch_witness:
  "complete_node example_root example_tokens 6 5 =
     Inr [\<lparr>inv_completer = 3,
           inv_prev_tokens =
             [example_token OP 1 2, example_token IDENT 2 3, example_token PUNCTUATION 3 4,
              example_token IDENT 4 5, example_token OP 5 6],
           inv_node = AstNode 4 6 True [3] []\<rparr>]
   \<and> descent example_root 6 = [example_root, example_first, AstNode 4 6 True [3] []]
   \<and> completers (last (descent example_root 6)) = [3]
   \<and> example_root \<noteq> AstNode 4 6 True [3] [] \<and> example_first \<noteq> AstNode 4 6 True [3] []"
proof -
  have h: "complete_node example_root example_tokens 6 5 =
     Inr [\<lparr>inv_completer = 3,
           inv_prev_tokens =
             [example_token OP 1 2, example_token IDENT 2 3, example_token PUNCTUATION 3 4,
              example_token IDENT 4 5, example_token OP 5 6],
           inv_node = AstNode 4 6 True [3] []\<rparr>]"
    by (simp add: example_root_def example_first_def example_second_def in_span_def dispatch_def
        example_tokens_def example_token_def SKIP_TOKENS_def py_index_def)
  have d: "descent example_root 6 = [example_root, example_first, AstNode 4 6 True [3] []]"
    by (simp add: example_root_def example_first_def example_second_def in_span_def)
  show ?thesis
    using h d single_node_dispatch [OF h] by auto
qed

text \<open>
  Claim C3, as stated: when the located token is an identifier or whitespace,
  \<^verbatim>\<open>complete\<close> steps back to the prior token that is neither and re-anchors the offset
  at that token's start. In the text \<^verbatim>\<open>a.b{c:d;e f\<close> with the cursor at offset 11
  (the end of \<^verbatim>\<open>f\<close>), the located token is \<^verbatim>\<open>f\<close> (index 10); the loop steps over
  \<^verbatim>\<open>f\<close>, the blank and \<^verbatim>\<open>e\<close> and stops at \<^verbatim>\<open>;\<close> (index 7, offsets 7 to 8). The
  offset it resolves with is 8, the start of \<^verbatim>\<open>e\<close>, not 7, the start of \<^verbatim>\<open>;\<close>.
\<close>

theorem anchor_counterexample:
  "find_current_token example_tokens 11 = 10
   \<and> move_back example_tokens 11 10 = Inr (8, 7)
   \<and> ttype (example_tokens ! 7) = PUNCTUATION
   \<and> tstart (example_tokens ! 7) = 7
   \<and> complete example_root example_tokens 11 = complete_node example_root example_tokens 8 7"
  by (simp add: complete_def find_current_token_def enumerate_eq_zip upt_rec
      example_tokens_def example_token_def py_index_def)

text \<open>
  Claim C3, amended: \<^verbatim>\<open>complete\<close> locates the last token with
  \<open>start < offset \<le> end\<close> (on a boundary, the token that ends there; the first
  token when no token qualifies). While the
  token at hand is an identifier or whitespace it moves the offset to the start of
  that token and steps one token back. So with \<open>j\<close> the nearest token at or before
  the located one that is neither identifier nor whitespace, the resolver is called
  with token index \<open>j\<close>, and with the offset at the start of token \<open>j + 1\<close>, the
  earliest token stepped over (in a gapless stream, the end of token \<open>j\<close>, not its
  start); when the located token is itself such a token, the offset is unchanged.
\<close>

theorem anchor_after_prior_token:
  assumes "i < length tokens"
    and "(tstart (tokens ! i) < idx \<and> idx \<le> tend (tokens ! i)) \<or> i = 0"
    and "\<forall>k. i < k \<and> k < length tokens \<longrightarrow> \<not> (tstart (tokens ! k) < idx \<and> idx \<le> tend (tokens ! k))"
    and "j \<le> i"
    and "ttype (tokens ! j) \<notin> set [IDENT, WHITESPACE]"
    and "\<forall>k. j < k \<and> k \<le> i \<longrightarrow> ttype (tokens ! k) \<in> set [IDENT, WHITESPACE]"
  shows "find_current_token tokens idx = int i
         \<and> move_back tokens idx (int i) = Inr (if j = i then idx else tstart (tokens ! Suc j), int j)
         \<and> complete n tokens idx =
             complete_node n tokens (if j = i then idx else tstart (tokens ! Suc j)) (int j)"
proof -
  have 1: "find_current_token tokens idx = int i"
  proof (cases "tstart (tokens ! i) < idx \<and> idx \<le> tend (tokens ! i)")
    case True
    with assms(1) show ?thesis using assms(3) by (rule find_current_token_last)
  next
    case False
    with assms(2) have i0: "i = 0" by simp
    have "\<forall>k<length tokens. \<not> (tstart (tokens ! k) < idx \<and> idx \<le> tend (tokens ! k))"
    proof (intro allI impI)
      fix k assume k: "k < length tokens"
      show "\<not> (tstart (tokens ! k) < idx \<and> idx \<le> tend (tokens ! k))"
      proof (cases "k = 0")
        case True
        with False i0 show ?thesis by simp
      next
        case False
        with k i0 assms(3) show ?thesis by simp
      qed
    qed
    then have "find_current_token tokens idx = 0" by (rule find_current_token_none)
    with i0 show ?thesis by simp
  qed
  have 2: "move_back tokens idx (int i) = Inr (if j = i then idx else tstart (tokens ! Suc j), int j)"
    using assms(4) assms(1) assms(5,6) by (rule move_back_run)
  have 3: "complete n tokens idx =
             complete_node n tokens (if j = i then idx else tstart (tokens ! Suc j)) (int j)"
    unfolding complete_def 1 2 by simp
  from 1 2 3 show ?thesis by simp
qed

theorem anchor_after_prior_token_witness:
  "(10::nat) < length example_tokens
   \<and> tstart (example_tokens ! 10) < 11 \<and> 11 \<le> tend (example_tokens ! 10)
   \<and> ttype (example_tokens ! 7) \<notin> set [IDENT, WHITESPACE]
   \<and> find_current_token example_tokens 11 = 10
   \<and> move_back example_tokens 11 10 = Inr (tstart (example_tokens ! 8), 7)
   \<and> tstart (example_tokens ! 8) = 8
   \<and> complete example_root example_tokens 11 = complete_node example_root example_tokens 8 7"
proof -
  have a1: "(10::nat) < length example_tokens"
    by (simp add: example_tokens_def)
  have a2': "tstart (example_tokens ! 10) < 11 \<and> 11 \<le> tend (example_tokens ! 10)"
    by (simp add: example_tokens_def example_token_def)
  then have a2: "(tstart (example_tokens ! 10) < 11 \<and> 11 \<le> tend (example_tokens ! 10)) \<or> (10::nat) = 0"
    by simp
  have a3: "\<forall>k. 10 < k \<and> k < length example_tokens \<longrightarrow>
              \<not> (tstart (example_tokens ! k) < 11 \<and> 11 \<le> tend (example_tokens ! k))"
  proof (intro allI impI)
    fix k assume "10 < k \<and> k < length example_tokens"
    then have "k = 11" by (simp add: example_tokens_def)
    then show "\<not> (tstart (example_tokens ! k) < 11 \<and> 11 \<le> tend (example_tokens ! k))"
      by (simp add: example_tokens_def example_token_def)
  qed
  have a4: "(7::nat) \<le> 10" by simp
  have a5: "ttype (example_tokens ! 7) \<notin> set [IDENT, WHITESPACE]"
    by (simp add: example_tokens_def example_token_def)
  have a6: "\<forall>k. 7 < k \<and> k \<le> 10 \<longrightarrow> ttype (example_tokens ! k) \<in> set [IDENT, WHITESPACE]"
  proof (intro allI impI)
    fix k :: nat assume "7 < k \<and> k \<le> 10"
    then have "k = 8 \<or> k = 9 \<or> k = 10" by auto
    then show "ttype (example_tokens ! k) \<in> set [IDENT, WHITESPACE]"
      by (auto simp: example_tokens_def example_token_def)
  qed
  have s: "tstart (example_tokens ! 8) = 8"
    by (simp add: example_tokens_def example_token_def)
  show ?thesis
    using a1 a2' a5 s anchor_after_prior_token [OF a1 a2 a3 a4 a5 a6, of example_root]
    by simp
qed

subsection \<open>Claims about the suggestion generators\<close>

text \<open>
  Claim C5. \<^verbatim>\<open>property_completer\<close> yields one suggestion per property of the class, in
  order. For a property whose type is a \<^verbatim>\<open>BoolType\<close>: with the client's choice
  capability set, the snippet is the two-choice picker \<^verbatim>\<open>name: ${1|true,false|};\<close>;
  with it unset, the snippet is the empty placeholder \<^verbatim>\<open>name: $0;\<close>. The second
  half passes through the test \<^verbatim>\<open>prop.type.full_name == "Gtk.Expression"\<close>, which a
  boolean type does not meet; \<^verbatim>\<open>gir.py\<close> is not among the sources, so that is a
  condition on the type's name.
\<close>

theorem boolean_property_snippet:
  assumes "gir_class node = Some cls" and "properties cls = Some props"
    and "i < length props" and "props ! i = (prop_name, prop)"
    and "type_kind (ptype prop) = BoolType"
  shows "length (property_completer lsp node) = length props
         \<and> label (property_completer lsp node ! i) = prop_name
         \<and> (client_supports_completion_choice lsp \<longrightarrow>
              snippet (property_completer lsp node ! i) = Some (prop_name @ '': ${1|true,false|};''))
         \<and> (\<not> client_supports_completion_choice lsp \<and> full_name (ptype prop) \<noteq> ''Gtk.Expression'' \<longrightarrow>
              snippet (property_completer lsp node ! i) = Some (prop_name @ '': $0;''))"
proof -
  have n: "property_completer lsp node ! i = property_completion lsp prop_name prop"
    using property_completer_nth[OF assms(1-3), of lsp] assms(4) by simp
  have l: "length (property_completer lsp node) = length props"
    using assms(1,2) by (simp add: property_completer_def)
  show ?thesis
    unfolding n using l assms(5) by (simp add: property_completion_def Let_def)
qed

theorem boolean_property_snippet_witness:
  "gir_class example_content = Some example_class
   \<and> type_kind (ptype (snd (the (properties example_class) ! 0))) = BoolType
   \<and> snippet (property_completer \<lparr>client_supports_completion_choice = True\<rparr> example_content ! 0)
       = Some ''visible: ${1|true,false|};''
   \<and> snippet (property_completer \<lparr>client_supports_completion_choice = False\<rparr> example_content ! 0)
       = Some ''visible: $0;''"
proof -
  let ?p = "\<lparr>ptype = \<lparr>type_kind = BoolType, full_name = ''bool''\<rparr>,
             pdoc = None, pdetail = None, translated = False\<rparr>"
  let ?props = "the (properties example_class)"
  have a1: "gir_class example_content = Some example_class"
    by (simp add: example_content_def)
  have a2: "properties example_class = Some ?props"
    by (simp add: example_class_def)
  have a3: "0 < length ?props" by (simp add: example_class_def)
  have a4: "?props ! 0 = (''visible'', ?p)" by (simp add: example_class_def)
  have a5: "type_kind (ptype ?p) = BoolType" by simp
  have a6: "full_name (ptype ?p) \<noteq> ''Gtk.Expression''" by simp
  have t: "snippet (property_completer \<lparr>client_supports_completion_choice = True\<rparr> example_content ! 0)
       = Some ''visible: ${1|true,false|};''"
    using boolean_property_snippet [OF a1 a2 a3 a4 a5, of "\<lparr>client_supports_completion_choice = True\<rparr>"]
    by simp
  have f: "snippet (property_completer \<lparr>client_supports_completion_choice = False\<rparr> example_content ! 0)
       = Some ''visible: $0;''"
    using boolean_property_snippet [OF a1 a2 a3 a4 a5, of "\<lparr>client_supports_completion_choice = False\<rparr>"] a6
    by simp
  from a1 a4 t f show ?thesis by simp
qed

text \<open>
  Claim C10. Every suggestion of \<^verbatim>\<open>property_completer\<close> has the sort key \<^verbatim>\<open>"0 "\<close>
  followed by its label, every suggestion of \<^verbatim>\<open>signal_completer\<close> the sort key
  \<^verbatim>\<open>"1 "\<close> followed by its label, so for one node each property suggestion's key is
  below each signal suggestion's key in the lexicographic order of strings.
\<close>

theorem property_before_signal:
  assumes "p \<in> set (property_completer lsp node)" and "s \<in> set (signal_completer lsp node)"
  shows "sort_text p = Some (''0 '' @ label p) \<and> sort_text s = Some (''1 '' @ label s)
         \<and> ''0 '' @ label p < ''1 '' @ label s"
  using property_completer_sort_text[OF assms(1)] signal_completer_sort_text[OF assms(2)]
    zero_less_one_key[of "label p" "label s"]
  by simp

theorem property_before_signal_witness:
  "sort_text (property_completer \<lparr>client_supports_completion_choice = True\<rparr> example_content ! 2)
     = Some ''0 halign''
   \<and> sort_text (signal_completer \<lparr>client_supports_completion_choice = True\<rparr> example_content ! 0)
     = Some ''1 clicked''
   \<and> ''0 halign'' < ''1 clicked''"
proof -
  let ?lsp = "\<lparr>client_supports_completion_choice = True\<rparr>"
  let ?p = "property_completer ?lsp example_content ! 2"
  let ?s = "signal_completer ?lsp example_content ! 0"
  have lp: "label ?p = ''halign''"
    by (simp add: property_completer_def property_completion_def example_content_def
        example_class_def Let_def)
  have ls: "label ?s = ''clicked''"
    by (simp add: signal_completer_def signal_completion_def example_content_def example_class_def)
  have p: "?p \<in> set (property_completer ?lsp example_content)"
    by (rule nth_mem) (simp add: property_completer_def example_content_def example_class_def)
  have s: "?s \<in> set (signal_completer ?lsp example_content)"
    by (rule nth_mem) (simp add: signal_completer_def example_content_def example_class_def)
  show ?thesis
    using property_before_signal [OF p s] lp ls by simp
qed

subsection \<open>Claims about the validators\<close>

text \<open>
  Claim C6. When exactly two responses of one responses block share an ID (positions
  \<open>i < j\<close>, and no other pair of responses shares an ID), validation of the block
  reports exactly one duplicate diagnostic: the one raised by the second response, at
  position \<open>j\<close>, with the message \<^verbatim>\<open>Duplicate response ID '...'\<close> and the range of
  that response's \<^verbatim>\<open>id\<close> token. The first response reports none.
\<close>

theorem duplicate_reported_once:
  assumes "i < j" and "j < length rs" and "rid (rs ! i) = rid (rs ! j)"
    and "\<forall>a b. a < b \<and> b < length rs \<and> rid (rs ! a) = rid (rs ! b) \<longrightarrow> a = i \<and> b = j"
  shows "duplicate_diagnostics rs =
           [(j, \<lparr>dkind = CompileError,
                 message = ''Duplicate response ID '' @ sq @ rid (rs ! j) @ sq,
                 range = Some (rid_range (rs ! j)), actions = []\<rparr>)]
         \<and> response_unique_in_parent rs i = None"
proof -
  let ?f = "\<lambda>k. case response_unique_in_parent rs k of None \<Rightarrow> [] | Some d \<Rightarrow> [(k, d)]"
  have other: "\<forall>k<length rs. k \<noteq> j \<longrightarrow> ?f k = []"
  proof (intro allI impI)
    fix k assume k: "k < length rs" and kj: "k \<noteq> j"
    have "\<not> (\<exists>a<k. rid (rs ! a) = rid (rs ! k))"
      using assms(4) k kj by blast
    then show "?f k = []"
      using response_unique_in_parent_iff[OF k] by simp
  qed
  have "\<exists>a<j. rid (rs ! a) = rid (rs ! j)" using assms(1,3) by blast
  then have here: "?f j = [(j, \<lparr>dkind = CompileError,
                 message = ''Duplicate response ID '' @ sq @ rid (rs ! j) @ sq,
                 range = Some (rid_range (rs ! j)), actions = []\<rparr>)]"
    using response_unique_in_parent_iff[OF assms(2)] by simp
  have first: "response_unique_in_parent rs i = None"
  proof -
    have il: "i < length rs" using assms(1,2) by simp
    have "\<not> (\<exists>a<i. rid (rs ! a) = rid (rs ! i))"
      using assms(1,4) il by (metis less_irrefl)
    then show ?thesis using response_unique_in_parent_iff[OF il] by simp
  qed
  have "duplicate_diagnostics rs = ?f j"
    unfolding duplicate_diagnostics_def using concat_map_single[OF assms(2) other] .
  with here first show ?thesis by simp
qed


theorem duplicate_reported_once_witness:
  "rid (example_responses ! 0) = rid (example_responses ! 2)
   \<and> duplicate_diagnostics example_responses =
       [(2, \<lparr>dkind = CompileError,
              message = ''Duplicate response ID '' @ sq @ ''cancel'' @ sq,
              range = Some (46, 52), actions = []\<rparr>)]
   \<and> response_unique_in_parent example_responses 0 = None"
proof -
  have a1: "(0::nat) < 2" by simp
  have a2: "2 < length example_responses" by (simp add: example_responses_def)
  have a3: "rid (example_responses ! 0) = rid (example_responses ! 2)"
    by (simp add: example_responses_def)
  have a4: "\<forall>a b. a < b \<and> b < length example_responses
              \<and> rid (example_responses ! a) = rid (example_responses ! b) \<longrightarrow> a = 0 \<and> b = 2"
  proof (intro allI impI)
    fix a b :: nat
    assume h: "a < b \<and> b < length example_responses
               \<and> rid (example_responses ! a) = rid (example_responses ! b)"
    then have "b = 1 \<or> b = 2" by (auto simp: example_responses_def)
    moreover from h have "a = 0 \<or> a = 1" by (auto simp: example_responses_def)
    ultimately show "a = 0 \<and> b = 2"
      using h by (auto simp: example_responses_def)
  qed
  have r: "rid (example_responses ! 2) = ''cancel''" "rid_range (example_responses ! 2) = (46, 52)"
    by (simp_all add: example_responses_def)
  show ?thesis
    using a3 r duplicate_reported_once [OF a1 a2 a3 a4] by simp
qed

text \<open>
  Claim C7. The validator \<^verbatim>\<open>exclusive\<close> is to report
  \<^verbatim>\<open>'suggested' and 'destructive' are exclusive\<close> exactly when both flags stand on one
  response. Its check accepts any earlier flag that is \<^verbatim>\<open>destructive\<close> or
  \<^verbatim>\<open>suggested\<close>, the flag's own word included, so on the flags
  \<^verbatim>\<open>destructive destructive\<close> the second flag reports the diagnostic although
  \<^verbatim>\<open>suggested\<close> does not occur (\<^verbatim>\<open>unique\<close> reports the repetition as well).
\<close>

theorem exclusive_on_repeated_flag:
  "map flag (flags (example_responses ! 2)) = [''destructive'', ''destructive'']
   \<and> exclusive_diagnostics (flags (example_responses ! 2)) =
       [(1, \<lparr>dkind = CompileError,
              message = sq @ ''suggested'' @ sq @ '' and '' @ sq @ ''destructive'' @ sq @ '' are exclusive'',
              range = Some (70, 81), actions = []\<rparr>)]
   \<and> flag_unique (flags (example_responses ! 2)) 1 =
       Some \<lparr>dkind = CompileError,
              message = ''Duplicate '' @ sq @ ''destructive'' @ sq @ '' flag'',
              range = Some (70, 81), actions = []\<rparr>"
  by (simp add: example_responses_def exclusive_diagnostics_def flag_exclusive_def flag_unique_def
      validate_def validate_unique_in_parent_def raise_CompileError_def upt_rec)

text \<open>
  Claim C8. A \<^verbatim>\<open>template\<close> block without a type name makes \<^verbatim>\<open>type_name_upgrade\<close>
  raise an \<^verbatim>\<open>UpgradeWarning\<close>, which is not fatal, with the range of the
  \<^verbatim>\<open>template\<close> keyword and exactly one quick-fix action, whose replacement text is
  \<^verbatim>\<open>template ListItem\<close>. The block is still accepted: the type check
  \<^verbatim>\<open>type_is_list_item\<close> raises nothing for it.
\<close>

theorem upgrade_warning_when_type_omitted:
  assumes "type_name_children self = []"
  shows "type_name_upgrade self =
           Some \<lparr>dkind = UpgradeWarning,
                  message = ''Expected type name after '' @ sq @ ''template'' @ sq @ '' keyword'',
                  range = Some (id_range self),
                  actions = [\<lparr>title = ''Add ListItem type to template block (introduced in blueprint 0.8.0)'',
                              replace_with = ''template ListItem''\<rparr>]\<rparr>
         \<and> \<not> fatal (the (type_name_upgrade self))
         \<and> length (actions (the (type_name_upgrade self))) = 1
         \<and> map replace_with (actions (the (type_name_upgrade self))) = [''template ListItem'']
         \<and> type_is_list_item self = None"
  using assms
  by (simp add: type_name_upgrade_def type_is_list_item_def type_name_def validate_def
      raise_UpgradeWarning_def fatal_def)

theorem upgrade_warning_when_type_omitted_witness:
  "type_name_children example_template = []
   \<and> dkind (the (type_name_upgrade example_template)) = UpgradeWarning
   \<and> range (the (type_name_upgrade example_template)) = Some (0, 8)
   \<and> map replace_with (actions (the (type_name_upgrade example_template))) = [''template ListItem'']
   \<and> type_is_list_item example_template = None"
proof -
  have h: "type_name_children example_template = []"
    by (simp add: example_template_def)
  have r: "id_range example_template = (0, 8)"
    by (simp add: example_template_def)
  show ?thesis
    using h r upgrade_warning_when_type_omitted [OF h] by simp
qed

end
